theory Spec2Isabelle
  imports Main
begin

section \<open>Python values and JSON text\<close>

text \<open>
  The values that travel in a message are the Python objects that the standard \<open>json\<close>
  module writes and reads back: \<open>None\<close>, booleans, integers (unbounded), strings, lists and
  dictionaries with string keys. A dictionary is an association list in insertion order.
  Floating-point numbers are outside this embedding. A character stands for a code point
  below 256.
\<close>

datatype json =
    JNull
  | JBool bool
  | JInt int
  | JStr string
  | JArr "json list"
  | JObj "(string \<times> json) list"

text \<open>
  The exceptions that the modelled code can raise. \<open>HandlerError\<close> stands for whatever a
  user handler raises; \<open>OutsideModel\<close> is not a Python exception: the parser below answers
  with it on JSON text that denotes a value this embedding does not have (a float, a code
  point of 256 or more).
\<close>

datatype error =
    TypeError
  | AttributeError
  | JSONDecodeError
  | HandlerError
  | ConnectionClosed
  | InvalidStateError
  | OutsideModel

subsection \<open>\<open>json.dumps\<close> with its default arguments\<close>

definition quote :: char where
  "quote = CHR 0x22"

definition backslash :: char where
  "backslash = CHR 0x5C"

definition hex_digit :: "nat \<Rightarrow> char" where
  "hex_digit d = (if d < 10 then char_of (48 + d) else char_of (87 + d))"

text \<open>
  \<open>py_encode_basestring_ascii\<close>: the quote and the backslash get a backslash, the five
  named control characters their letter, every other character outside the printable
  range \<open>0x20 .. 0x7E\<close> the form \<open>\u00xx\<close> with lowercase hexadecimal digits.
\<close>

definition escape_char :: "char \<Rightarrow> string" where
  "escape_char c =
     (if c = quote then [backslash, quote]
      else if c = backslash then [backslash, backslash]
      else if c = CHR 0x0A then [backslash, CHR ''n'']
      else if c = CHR 0x0D then [backslash, CHR ''r'']
      else if c = CHR 0x09 then [backslash, CHR ''t'']
      else if c = CHR 0x08 then [backslash, CHR ''b'']
      else if c = CHR 0x0C then [backslash, CHR ''f'']
      else if 32 \<le> (of_char c :: nat) \<and> (of_char c :: nat) \<le> 126 then [c]
      else [backslash, CHR ''u'', CHR ''0'', CHR ''0'',
            hex_digit ((of_char c :: nat) div 16), hex_digit ((of_char c :: nat) mod 16)])"

definition dumps_str :: "string \<Rightarrow> string" where
  "dumps_str s = quote # concat (map escape_char s) @ [quote]"

fun dec :: "nat \<Rightarrow> string" where
  "dec n = (if n < 10 then [char_of (48 + n)] else dec (n div 10) @ [char_of (48 + n mod 10)])"

definition dumps_int :: "int \<Rightarrow> string" where
  "dumps_int i = (if i < 0 then CHR ''-'' # dec (nat (- i)) else dec (nat i))"

fun join :: "string \<Rightarrow> string list \<Rightarrow> string" where
  "join sep [] = []"
| "join sep [x] = x"
| "join sep (x # y # ys) = x @ sep @ join sep (y # ys)"

fun json_dumps :: "json \<Rightarrow> string" where
  "json_dumps JNull = ''null''"
| "json_dumps (JBool b) = (if b then ''true'' else ''false'')"
| "json_dumps (JInt i) = dumps_int i"
| "json_dumps (JStr s) = dumps_str s"
| "json_dumps (JArr vs) = ''['' @ join '', '' (map json_dumps vs) @ '']''"
| "json_dumps (JObj kvs) =
     ''{'' @ join '', '' (map (\<lambda>(k, v). dumps_str k @ '': '' @ json_dumps v) kvs) @ ''}''"

subsection \<open>\<open>json.loads\<close>\<close>

definition is_ws :: "char \<Rightarrow> bool" where
  "is_ws c = (c = CHR '' '' \<or> c = CHR 0x09 \<or> c = CHR 0x0A \<or> c = CHR 0x0D)"

fun skip_ws :: "string \<Rightarrow> string" where
  "skip_ws [] = []"
| "skip_ws (c # cs) = (if is_ws c then skip_ws cs else c # cs)"

definition is_digit :: "char \<Rightarrow> bool" where
  "is_digit c = (48 \<le> (of_char c :: nat) \<and> (of_char c :: nat) \<le> 57)"

definition hex_val :: "char \<Rightarrow> nat option" where
  "hex_val c =
     (let n = (of_char c :: nat) in
      if 48 \<le> n \<and> n \<le> 57 then Some (n - 48)
      else if 97 \<le> n \<and> n \<le> 102 then Some (n - 87)
      else if 65 \<le> n \<and> n \<le> 70 then Some (n - 55)
      else None)"

definition hex4 :: "char \<Rightarrow> char \<Rightarrow> char \<Rightarrow> char \<Rightarrow> nat option" where
  "hex4 a b c d =
     (case (hex_val a, hex_val b, hex_val c, hex_val d) of
        (Some w, Some x, Some y, Some z) \<Rightarrow> Some (((w * 16 + x) * 16 + y) * 16 + z)
      | _ \<Rightarrow> None)"

text \<open>The table \<open>BACKSLASH\<close> of the decoder: the character after a backslash.\<close>

definition unescape :: "char \<Rightarrow> char option" where
  "unescape e =
     (if e = quote then Some quote
      else if e = backslash then Some backslash
      else if e = CHR ''/'' then Some CHR ''/''
      else if e = CHR ''b'' then Some (CHR 0x08)
      else if e = CHR ''f'' then Some (CHR 0x0C)
      else if e = CHR ''n'' then Some (CHR 0x0A)
      else if e = CHR ''r'' then Some (CHR 0x0D)
      else if e = CHR ''t'' then Some (CHR 0x09)
      else None)"

text \<open>
  \<open>scanstring\<close> (strict mode) reads a string body after its opening quote: up to the
  closing quote, decoding escapes, refusing raw control characters.
\<close>

fun scanstring :: "string \<Rightarrow> string \<Rightarrow> error + (string \<times> string)" where
  "scanstring [] acc = Inl JSONDecodeError"
| "scanstring (c # cs) acc =
     (if c = quote then Inr (acc, cs)
      else if c = backslash then
        (case cs of
           [] \<Rightarrow> Inl JSONDecodeError
         | e # cs1 \<Rightarrow>
             if e = CHR ''u'' then
               (case cs1 of
                  h1 # h2 # h3 # h4 # cs2 \<Rightarrow>
                    (case hex4 h1 h2 h3 h4 of
                       None \<Rightarrow> Inl JSONDecodeError
                     | Some n \<Rightarrow>
                         if n < 256 then scanstring cs2 (acc @ [char_of n])
                         else Inl OutsideModel)
                | _ \<Rightarrow> Inl JSONDecodeError)
             else
               (case unescape e of
                  None \<Rightarrow> Inl JSONDecodeError
                | Some ch \<Rightarrow> scanstring cs1 (acc @ [ch])))
      else if (of_char c :: nat) < 32 then Inl JSONDecodeError
      else scanstring cs (acc @ [c]))"

fun scan_digits :: "string \<Rightarrow> nat \<Rightarrow> nat \<times> string" where
  "scan_digits [] acc = (acc, [])"
| "scan_digits (c # cs) acc =
     (if is_digit c then scan_digits cs (acc * 10 + ((of_char c :: nat) - 48)) else (acc, c # cs))"

text \<open>
  What follows the integer part decides between an \<open>int\<close> and a \<open>float\<close>: a fraction is a
  dot and a digit, an exponent is \<open>e\<close> or \<open>E\<close>, an optional sign and a digit.
\<close>

fun float_tail :: "string \<Rightarrow> bool" where
  "float_tail (c # d # cs) =
     (if c = CHR ''.'' then is_digit d
      else if c = CHR ''e'' \<or> c = CHR ''E'' then
        (if d = CHR ''+'' \<or> d = CHR ''-'' then (case cs of [] \<Rightarrow> False | x # _ \<Rightarrow> is_digit x)
         else is_digit d)
      else False)"
| "float_tail _ = False"

text \<open>
  The number pattern \<open>-?(0|[1-9][0-9]*)\<close> on text that starts with a digit: a leading
  zero is a number of its own.
\<close>

definition scan_nat :: "string \<Rightarrow> nat \<times> string" where
  "scan_nat s = (case s of [] \<Rightarrow> (0, []) | c # cs \<Rightarrow> if c = CHR ''0'' then (0, cs) else scan_digits s 0)"

definition starts_with :: "string \<Rightarrow> string \<Rightarrow> bool" where
  "starts_with p s = (take (length p) s = p)"

definition scan_number :: "string \<Rightarrow> error + (json \<times> string)" where
  "scan_number s =
     (case s of
        [] \<Rightarrow> Inl JSONDecodeError
      | c # cs \<Rightarrow>
          if is_digit c then
            (case scan_nat s of (n, r) \<Rightarrow>
               if float_tail r then Inl OutsideModel else Inr (JInt (int n), r))
          else if c = CHR ''-'' then
            (case cs of
               [] \<Rightarrow> Inl JSONDecodeError
             | d # _ \<Rightarrow>
                 if is_digit d then
                   (case scan_nat cs of (n, r) \<Rightarrow>
                      if float_tail r then Inl OutsideModel else Inr (JInt (- int n), r))
                 else if starts_with ''Infinity'' cs then Inl OutsideModel
                 else Inl JSONDecodeError)
          else if starts_with ''NaN'' s \<or> starts_with ''Infinity'' s then Inl OutsideModel
          else Inl JSONDecodeError)"

text \<open>
  A Python dictionary built from the pairs of a JSON object: a key that comes again
  keeps its first position and takes the later value.
\<close>

fun dict_set :: "(string \<times> json) list \<Rightarrow> string \<Rightarrow> json \<Rightarrow> (string \<times> json) list" where
  "dict_set [] k v = [(k, v)]"
| "dict_set ((k', v') # kvs) k v = (if k' = k then (k, v) # kvs else (k', v') # dict_set kvs k v)"

text \<open>
  \<open>scan_once\<close> with \<open>JSONArray\<close> and \<open>JSONObject\<close>. The first argument bounds the number of
  nested calls; \<open>json_loads\<close> starts with more than the text can use, since every call
  after the second consumes a character.
\<close>

fun scan_once :: "nat \<Rightarrow> string \<Rightarrow> error + (json \<times> string)"
  and scan_array :: "nat \<Rightarrow> string \<Rightarrow> json list \<Rightarrow> error + (json \<times> string)"
  and scan_object :: "nat \<Rightarrow> string \<Rightarrow> (string \<times> json) list \<Rightarrow> error + (json \<times> string)"
where
  "scan_once 0 s = Inl JSONDecodeError"
| "scan_once (Suc n) s =
     (case s of
        [] \<Rightarrow> Inl JSONDecodeError
      | c # cs \<Rightarrow>
          if c = quote then
            (case scanstring cs [] of Inl e \<Rightarrow> Inl e | Inr (str, r) \<Rightarrow> Inr (JStr str, r))
          else if c = CHR ''{'' then
            (case skip_ws cs of
               [] \<Rightarrow> Inl JSONDecodeError
             | d # r \<Rightarrow>
                 if d = CHR ''}'' then Inr (JObj [], r)
                 else if d = quote then scan_object n (d # r) []
                 else Inl JSONDecodeError)
          else if c = CHR ''['' then
            (case skip_ws cs of
               [] \<Rightarrow> Inl JSONDecodeError
             | d # r \<Rightarrow> if d = CHR '']'' then Inr (JArr [], r) else scan_array n (d # r) [])
          else if starts_with ''null'' s then Inr (JNull, drop 4 s)
          else if starts_with ''true'' s then Inr (JBool True, drop 4 s)
          else if starts_with ''false'' s then Inr (JBool False, drop 5 s)
          else scan_number s)"
| "scan_array 0 s acc = Inl JSONDecodeError"
| "scan_array (Suc n) s acc =
     (case scan_once n s of
        Inl e \<Rightarrow> Inl e
      | Inr (v, r) \<Rightarrow>
          (case skip_ws r of
             [] \<Rightarrow> Inl JSONDecodeError
           | d # r1 \<Rightarrow>
               if d = CHR '']'' then Inr (JArr (acc @ [v]), r1)
               else if d = CHR '','' then scan_array n (skip_ws r1) (acc @ [v])
               else Inl JSONDecodeError))"
| "scan_object 0 s acc = Inl JSONDecodeError"
| "scan_object (Suc n) s acc =
     (case s of
        [] \<Rightarrow> Inl JSONDecodeError
      | q # cs \<Rightarrow>
          if q \<noteq> quote then Inl JSONDecodeError
          else
            (case scanstring cs [] of
               Inl e \<Rightarrow> Inl e
             | Inr (k, r) \<Rightarrow>
                 (case skip_ws r of
                    [] \<Rightarrow> Inl JSONDecodeError
                  | c # r1 \<Rightarrow>
                      if c \<noteq> CHR '':'' then Inl JSONDecodeError
                      else
                        (case scan_once n (skip_ws r1) of
                           Inl e \<Rightarrow> Inl e
                         | Inr (v, r2) \<Rightarrow>
                             (case skip_ws r2 of
                                [] \<Rightarrow> Inl JSONDecodeError
                              | d # r3 \<Rightarrow>
                                  if d = CHR ''}'' then Inr (JObj (dict_set acc k v), r3)
                                  else if d = CHR '','' then
                                    scan_object n (skip_ws r3) (dict_set acc k v)
                                  else Inl JSONDecodeError)))))"

text \<open>
  \<open>JSONDecoder.decode\<close>: white space, one value, white space, and nothing more
  (``Extra data'' otherwise).
\<close>

definition json_loads :: "string \<Rightarrow> error + json" where
  "json_loads s =
     (case scan_once (2 * length s + 2) (skip_ws s) of
        Inl e \<Rightarrow> Inl e
      | Inr (v, r) \<Rightarrow> if skip_ws r = [] then Inr v else Inl JSONDecodeError)"

section \<open>\<open>message.py\<close>: the class \<open>Message\<close>\<close>

text \<open>
  A message has the attributes \<open>uuid\<close>, \<open>code\<close> and \<open>data\<close>. Nothing checks their types, so
  each of the first two is any value. The type of \<open>data\<close> is a parameter: a value where
  only the contents matter (the codec), an address where the identity of the dictionary
  matters (sharing).
\<close>

record 'd Message =
  uuid :: json
  code :: json
  data :: 'd

text \<open>
  The defaults of \<open>__init__(self, code, uuid=int(uuid.uuid4()), data={})\<close>. Python
  evaluates a default once, when the \<open>def\<close> statement runs at import, and keeps the
  resulting objects in the function.
\<close>

record 'd module_defaults =
  default_uuid :: json
  default_data :: 'd

definition Message_init ::
    "'d module_defaults \<Rightarrow> json \<Rightarrow> json option \<Rightarrow> 'd option \<Rightarrow> 'd Message" where
  "Message_init md c u d =
     \<lparr>uuid = (case u of None \<Rightarrow> default_uuid md | Some x \<Rightarrow> x),
      code = c,
      data = (case d of None \<Rightarrow> default_data md | Some x \<Rightarrow> x)\<rparr>"

subsection \<open>Dictionaries as objects\<close>

text \<open>A store of dictionary objects: an address names one dictionary.\<close>

record heap =
  cells :: "nat \<rightharpoonup> (string \<times> json) list"
  next_addr :: nat

definition new_dict :: "heap \<Rightarrow> nat \<times> heap" where
  "new_dict h = (next_addr h, h\<lparr>cells := (cells h)(next_addr h \<mapsto> []), next_addr := Suc (next_addr h)\<rparr>)"

text \<open>
  Importing \<open>message.py\<close> runs the \<open>def\<close> of \<open>__init__\<close>: one call of \<open>uuid.uuid4()\<close>, whose
  integer is \<open>r\<close>, and one evaluation of \<open>{}\<close>.
\<close>

definition import_message :: "int \<Rightarrow> heap \<Rightarrow> nat module_defaults \<times> heap" where
  "import_message r h =
     (case new_dict h of (a, h') \<Rightarrow> (\<lparr>default_uuid = JInt r, default_data = a\<rparr>, h'))"

text \<open>\<open>d[k] = v\<close> on the dictionary at an address, and the dictionary that \<open>m.data\<close> names.\<close>

definition dict_setitem :: "heap \<Rightarrow> nat \<Rightarrow> string \<Rightarrow> json \<Rightarrow> heap" where
  "dict_setitem h a k v =
     (case cells h a of None \<Rightarrow> h | Some d \<Rightarrow> h\<lparr>cells := (cells h)(a \<mapsto> dict_set d k v)\<rparr>)"

definition payload :: "heap \<Rightarrow> nat Message \<Rightarrow> (string \<times> json) list option" where
  "payload h m = cells h (data m)"

subsection \<open>The codec\<close>

definition to_dict :: "json Message \<Rightarrow> json" where
  "to_dict m = JObj [(''uuid'', uuid m), (''code'', code m), (''data'', data m)]"

definition to_json :: "json Message \<Rightarrow> string" where
  "to_json m = json_dumps (to_dict m)"

text \<open>
  The call \<open>cls(**d)\<close>: \<open>d\<close> must be a mapping, each key must name a parameter of
  \<open>__init__\<close>, and \<open>code\<close>, which has no default, must be among them.
\<close>

definition Message_kwargs :: "json module_defaults \<Rightarrow> json \<Rightarrow> error + json Message" where
  "Message_kwargs md d =
     (case d of
        JObj kvs \<Rightarrow>
          if \<not> list_all (\<lambda>k. k = ''code'' \<or> k = ''uuid'' \<or> k = ''data'') (map fst kvs) then Inl TypeError
          else
            (case map_of kvs ''code'' of
               None \<Rightarrow> Inl TypeError
             | Some c \<Rightarrow> Inr (Message_init md c (map_of kvs ''uuid'') (map_of kvs ''data'')))
      | _ \<Rightarrow> Inl TypeError)"

definition from_dict :: "json module_defaults \<Rightarrow> json \<Rightarrow> error + json Message" where
  "from_dict md d = Message_kwargs md d"

definition from_json :: "json module_defaults \<Rightarrow> string \<Rightarrow> error + json Message" where
  "from_json md s = (case json_loads s of Inl e \<Rightarrow> Inl e | Inr d \<Rightarrow> Message_kwargs md d)"

section \<open>Handlers, logging and the \<open>asyncio\<close> calls\<close>

text \<open>
  A handler is a callable of the application. An \<open>async def\<close> function returns a coroutine
  when called and runs its body only when the coroutine is scheduled; the body then
  raises or not. A plain function runs its body when called: it raises, returns a value
  that cannot be awaited (such as \<open>None\<close>), or returns an awaitable, which raises or not
  when awaited. A body runs without interleaving; what it does beyond that is not
  modelled. The string is the handler's identity.
\<close>

datatype plain_result = PRaise | PValue | PAwaitable bool

datatype handler =
    AsyncDef string "json Message \<Rightarrow> bool"
  | PlainDef string "json Message \<Rightarrow> plain_result"

datatype awaitable = Body string bool | Returned bool | NotAwaitable

fun raises :: "awaitable \<Rightarrow> bool" where
  "raises (Body n r) = r"
| "raises (Returned r) = r"
| "raises NotAwaitable = False"

datatype level = DEBUG | INFO | WARNING | ERROR | CRITICAL

datatype log_text =
    ConnectedTo string
  | Disconnected
  | ConnectionToServerClosed
  | ErrorProcessing string error
  | Dispatching string
  | NotConnected
  | Sending string
  | TimeoutWaiting json
  | GotConnection string
  | ConnectionDisconnected string
  | Processing string

text \<open>
  What a client and a server have in common: the table of handlers, the calls of the
  logger in order, and the record of the handler bodies that ran, each with the message
  it received.
\<close>

record endpoint =
  registed_callbacks :: "string \<rightharpoonup> handler list"
  logged :: "(level \<times> log_text) list"
  invoked :: "(string \<times> json Message) list"

definition log :: "level \<Rightarrow> log_text \<Rightarrow> 'a endpoint_scheme \<Rightarrow> 'a endpoint_scheme" where
  "log l t e = e\<lparr>logged := logged e @ [(l, t)]\<rparr>"

text \<open>\<open>on_message\<close> of both classes, and the decorator \<open>on\<close> applied to a function.\<close>

definition on_message :: "string \<Rightarrow> handler \<Rightarrow> 'a endpoint_scheme \<Rightarrow> 'a endpoint_scheme" where
  "on_message c f e =
     e\<lparr>registed_callbacks :=
         (registed_callbacks e)(c \<mapsto> (case registed_callbacks e c of None \<Rightarrow> [] | Some fs \<Rightarrow> fs) @ [f])\<rparr>"

definition on :: "string \<Rightarrow> handler \<Rightarrow> 'a endpoint_scheme \<Rightarrow> 'a endpoint_scheme" where
  "on c f e = on_message c f e"

text \<open>
  \<open>table.get(key, [])\<close> on a table whose keys are strings: a list or a dictionary as key
  is unhashable, any other value that is not a string is absent.
\<close>

definition callbacks_get :: "(string \<rightharpoonup> handler list) \<Rightarrow> json \<Rightarrow> error + handler list" where
  "callbacks_get t k =
     (case k of
        JStr s \<Rightarrow> Inr (case t s of None \<Rightarrow> [] | Some fs \<Rightarrow> fs)
      | JArr _ \<Rightarrow> Inl TypeError
      | JObj _ \<Rightarrow> Inl TypeError
      | _ \<Rightarrow> Inr [])"

text \<open>
  \<open>await asyncio.gather(*tasks)\<close>: the arguments are wrapped in tasks from left to right,
  and the first that is not awaitable raises \<open>TypeError\<close>; the tasks made before it stay
  scheduled and run. With all wrapped, all run; the first exception reaches the caller
  and the other tasks are not cancelled.
\<close>

definition gather ::
    "json Message \<Rightarrow> awaitable list \<Rightarrow> (string \<times> json Message) list \<Rightarrow>
     (error + unit) \<times> (string \<times> json Message) list" where
  "gather msg tasks tr =
     (let started = takeWhile (\<lambda>t. t \<noteq> NotAwaitable) tasks;
          tr' = tr @ concat (map (\<lambda>t. case t of Body n r \<Rightarrow> [(n, msg)] | _ \<Rightarrow> []) started)
      in if length started < length tasks then (Inl TypeError, tr')
         else if list_ex raises started then (Inl HandlerError, tr')
         else (Inr (), tr'))"

section \<open>\<open>server.py\<close>: the class \<open>Server\<close>\<close>

record Server = endpoint +
  connections :: "string \<rightharpoonup> nat"


text \<open>
  The inner loop of \<open>Server._dispatch_message\<close>, \<open>tasks.append(func(msg, ws))\<close> for each
  function of one list: the call of a plain function runs its body at once, and an
  exception there leaves both loops.
\<close>

fun server_calls ::
    "json Message \<Rightarrow> handler list \<Rightarrow> awaitable list \<Rightarrow> (string \<times> json Message) list \<Rightarrow>
     (error + awaitable list) \<times> (string \<times> json Message) list" where
  "server_calls msg [] tasks tr = (Inr tasks, tr)"
| "server_calls msg (AsyncDef n body # fs) tasks tr =
     server_calls msg fs (tasks @ [Body n (body msg)]) tr"
| "server_calls msg (PlainDef n body # fs) tasks tr =
     (case body msg of
        PRaise \<Rightarrow> (Inl HandlerError, tr @ [(n, msg)])
      | PValue \<Rightarrow> server_calls msg fs (tasks @ [NotAwaitable]) (tr @ [(n, msg)])
      | PAwaitable r \<Rightarrow> server_calls msg fs (tasks @ [Returned r]) (tr @ [(n, msg)]))"

text \<open>The outer loop, over \<open>(msg.code, "ALL")\<close>.\<close>

fun server_codes ::
    "(string \<rightharpoonup> handler list) \<Rightarrow> json Message \<Rightarrow> json list \<Rightarrow> awaitable list \<Rightarrow>
     (string \<times> json Message) list \<Rightarrow> (error + awaitable list) \<times> (string \<times> json Message) list" where
  "server_codes t msg [] tasks tr = (Inr tasks, tr)"
| "server_codes t msg (k # ks) tasks tr =
     (case callbacks_get t k of
        Inl e \<Rightarrow> (Inl e, tr)
      | Inr fs \<Rightarrow>
          (case server_calls msg fs tasks tr of
             (Inl e, tr') \<Rightarrow> (Inl e, tr')
           | (Inr tasks', tr') \<Rightarrow> server_codes t msg ks tasks' tr'))"

definition Server_dispatch_message :: "Server \<Rightarrow> json Message \<Rightarrow> (error + unit) \<times> Server" where
  "Server_dispatch_message s msg =
     (let s1 = log DEBUG (Dispatching (to_json msg)) s in
      case server_codes (registed_callbacks s1) msg [code msg, JStr ''ALL''] [] (invoked s1) of
        (Inl e, tr) \<Rightarrow> (Inl e, s1\<lparr>invoked := tr\<rparr>)
      | (Inr tasks, tr) \<Rightarrow>
          if tasks \<noteq> [] then
            (case gather msg tasks tr of (r, tr') \<Rightarrow> (r, s1\<lparr>invoked := tr'\<rparr>))
          else (Inr (), s1\<lparr>invoked := tr\<rparr>))"

text \<open>\<open>except Exception\<close> takes every exception of the \<open>try\<close> block and logs it.\<close>

definition Server_process_message :: "json module_defaults \<Rightarrow> Server \<Rightarrow> string \<Rightarrow> Server" where
  "Server_process_message md s message =
     (let s1 = log DEBUG (Processing message) s in
      case from_json md message of
        Inl e \<Rightarrow> log ERROR (ErrorProcessing message e) s1
      | Inr msg \<Rightarrow>
          (case Server_dispatch_message s1 msg of
             (Inl e, s2) \<Rightarrow> log ERROR (ErrorProcessing message e) s2
           | (Inr u, s2) \<Rightarrow> s2))"

text \<open>The loop \<open>async for message in ws\<close> over the frames that arrive, in order.\<close>

fun server_loop :: "json module_defaults \<Rightarrow> Server \<Rightarrow> string list \<Rightarrow> Server" where
  "server_loop md s [] = s"
| "server_loop md s (message # rest) = server_loop md (Server_process_message md s message) rest"

text \<open>
  \<open>_handle_connection\<close> for a connection \<open>ws\<close> that delivers the given frames and closes:
  the key is \<open>path[1:]\<close>.
\<close>

definition Server_handle_connection ::
    "json module_defaults \<Rightarrow> Server \<Rightarrow> nat \<Rightarrow> string \<Rightarrow> string list \<Rightarrow> Server" where
  "Server_handle_connection md s ws path frames =
     (let s1 = log INFO (GotConnection path) s;
          s2 = s1\<lparr>connections := (connections s1)(drop 1 path \<mapsto> ws)\<rparr>;
          s3 = server_loop md s2 frames;
          s4 = log INFO (ConnectionDisconnected path) s3
      in s4\<lparr>connections := (connections s4)(drop 1 path := None)\<rparr>)"

section \<open>\<open>client.py\<close>: the class \<open>Client\<close>\<close>

datatype ws_state = WsOpen | WsClosed

datatype future_state = Pending | Result "json Message" | Cancelled

text \<open>
  The attributes that \<open>__init__\<close> assigns are \<open>_url\<close>, \<open>_registed_callbacks\<close>, \<open>_logger\<close>,
  \<open>_websocket\<close> and \<open>_response_futures\<close>. The field \<open>events\<close> is the attribute \<open>_events\<close> that
  \<open>_dispatch_message\<close> reads: \<open>None\<close> says that the object has no such attribute. The
  futures are objects of their own, numbered as \<open>send_msg\<close> creates them; \<open>reading\<close> says
  that the task \<open>_message_handler\<close> is in its loop; \<open>sent\<close> holds the frames given to the
  connection.
\<close>

record Client = endpoint +
  url :: string
  events :: "(string \<rightharpoonup> handler list) option"
  websocket :: "ws_state option"
  reading :: bool
  response_futures :: "json \<rightharpoonup> nat"
  futures :: "nat \<Rightarrow> future_state"
  next_future :: nat
  sent :: "string list"

definition Client_init :: "string \<Rightarrow> Client" where
  "Client_init u =
     \<lparr>registed_callbacks = Map.empty, logged = [], invoked = [],
      url = u, events = None, websocket = None, reading = False,
      response_futures = Map.empty, futures = (\<lambda>_. Pending), next_future = 0, sent = []\<rparr>"

text \<open>\<open>connect\<close> when \<open>websockets.connect\<close> succeeds; it starts the task \<open>_message_handler\<close>.\<close>

definition connect :: "Client \<Rightarrow> Client" where
  "connect c = (log INFO (ConnectedTo (url c)) (c\<lparr>websocket := Some WsOpen\<rparr>))\<lparr>reading := True\<rparr>"

definition disconnect :: "Client \<Rightarrow> Client" where
  "disconnect c =
     (case websocket c of
        None \<Rightarrow> c
      | Some w \<Rightarrow> log INFO Disconnected (c\<lparr>websocket := Some WsClosed\<rparr>))"

text \<open>
  A key of the dictionary \<open>_response_futures\<close>: lists and dictionaries are unhashable,
  and \<open>True\<close> and \<open>False\<close> are the keys \<open>1\<close> and \<open>0\<close>.
\<close>

definition py_key :: "json \<Rightarrow> error + json" where
  "py_key v =
     (case v of
        JArr _ \<Rightarrow> Inl TypeError
      | JObj _ \<Rightarrow> Inl TypeError
      | JBool b \<Rightarrow> Inr (JInt (if b then 1 else 0))
      | _ \<Rightarrow> Inr v)"

text \<open>
  The inner loop of \<open>Client._dispatch_message\<close>: a coroutine function is called and its
  coroutine kept for \<open>gather\<close>; any other function is called and its result dropped.
\<close>

fun client_calls ::
    "json Message \<Rightarrow> handler list \<Rightarrow> awaitable list \<Rightarrow> (string \<times> json Message) list \<Rightarrow>
     (error + awaitable list) \<times> (string \<times> json Message) list" where
  "client_calls msg [] tasks tr = (Inr tasks, tr)"
| "client_calls msg (AsyncDef n body # fs) tasks tr =
     client_calls msg fs (tasks @ [Body n (body msg)]) tr"
| "client_calls msg (PlainDef n body # fs) tasks tr =
     (case body msg of
        PRaise \<Rightarrow> (Inl HandlerError, tr @ [(n, msg)])
      | PValue \<Rightarrow> client_calls msg fs tasks (tr @ [(n, msg)])
      | PAwaitable r \<Rightarrow> client_calls msg fs tasks (tr @ [(n, msg)]))"

text \<open>
  The outer loop, over \<open>(msg.code, "ALL")\<close>: each round starts by reading \<open>self._events\<close>,
  which raises \<open>AttributeError\<close> on an object without that attribute.
\<close>

fun client_codes ::
    "(string \<rightharpoonup> handler list) option \<Rightarrow> json Message \<Rightarrow> json list \<Rightarrow> awaitable list \<Rightarrow>
     (string \<times> json Message) list \<Rightarrow> (error + awaitable list) \<times> (string \<times> json Message) list" where
  "client_codes ev msg [] tasks tr = (Inr tasks, tr)"
| "client_codes ev msg (k # ks) tasks tr =
     (case ev of
        None \<Rightarrow> (Inl AttributeError, tr)
      | Some t \<Rightarrow>
          (case callbacks_get t k of
             Inl e \<Rightarrow> (Inl e, tr)
           | Inr fs \<Rightarrow>
               (case client_calls msg fs tasks tr of
                  (Inl e, tr') \<Rightarrow> (Inl e, tr')
                | (Inr tasks', tr') \<Rightarrow> client_codes ev msg ks tasks' tr')))"

definition Client_dispatch_message :: "Client \<Rightarrow> json Message \<Rightarrow> (error + unit) \<times> Client" where
  "Client_dispatch_message c msg =
     (let c1 = log DEBUG (Dispatching (to_json msg)) c in
      case client_codes (events c1) msg [code msg, JStr ''ALL''] [] (invoked c1) of
        (Inl e, tr) \<Rightarrow> (Inl e, c1\<lparr>invoked := tr\<rparr>)
      | (Inr tasks, tr) \<Rightarrow>
          if tasks \<noteq> [] then
            (case gather msg tasks tr of (r, tr') \<Rightarrow> (r, c1\<lparr>invoked := tr'\<rparr>))
          else (Inr (), c1\<lparr>invoked := tr\<rparr>))"

text \<open>
  The lines after the dispatch: \<open>msg.uuid in self._response_futures\<close>, then \<open>set_result\<close>
  on the future found, which raises \<open>InvalidStateError\<close> unless the future is pending.
\<close>

definition resolve :: "Client \<Rightarrow> json Message \<Rightarrow> (error + unit) \<times> Client" where
  "resolve c msg =
     (case py_key (uuid msg) of
        Inl e \<Rightarrow> (Inl e, c)
      | Inr k \<Rightarrow>
          (case response_futures c k of
             None \<Rightarrow> (Inr (), c)
           | Some f \<Rightarrow>
               if futures c f = Pending then (Inr (), c\<lparr>futures := (futures c)(f := Result msg)\<rparr>)
               else (Inl InvalidStateError, c)))"

definition Client_process_message :: "json module_defaults \<Rightarrow> Client \<Rightarrow> string \<Rightarrow> Client" where
  "Client_process_message md c message =
     (case from_json md message of
        Inl e \<Rightarrow> log ERROR (ErrorProcessing message e) c
      | Inr msg \<Rightarrow>
          (case Client_dispatch_message c msg of
             (Inl e, c1) \<Rightarrow> log ERROR (ErrorProcessing message e) c1
           | (Inr u, c1) \<Rightarrow>
               (case resolve c1 msg of
                  (Inl e, c2) \<Rightarrow> log ERROR (ErrorProcessing message e) c2
                | (Inr u', c2) \<Rightarrow> c2)))"

text \<open>
  What happens while a task waits in \<open>asyncio.wait_for(future, timeout)\<close>: the connection
  delivers a frame to \<open>_message_handler\<close>; the connection ends, with the exception
  \<open>ConnectionClosed\<close> in the loop of \<open>_message_handler\<close> (\<open>True\<close>) or with the plain end of
  that loop (\<open>False\<close>); the time \<open>timeout\<close> has passed for this wait.
\<close>

datatype event = Frame string | ConnectionEnds bool | TimerFires

definition connection_ends :: "bool \<Rightarrow> Client \<Rightarrow> Client" where
  "connection_ends exc c =
     (let c1 = c\<lparr>websocket := Some WsClosed, reading := False\<rparr>
      in if reading c \<and> exc then log INFO ConnectionToServerClosed c1 else c1)"

text \<open>
  The outcome of a call of \<open>send_msg\<close>: it raised, it returned (a reply or \<open>None\<close>), or its
  task is still suspended in \<open>wait_for\<close>.
\<close>

datatype outcome = Raised error | Returned_value "json Message option" | Suspended

text \<open>\<open>self._response_futures.pop(msg.uuid, None)\<close> of the \<open>finally\<close> block.\<close>

definition pop_future :: "json \<Rightarrow> Client \<Rightarrow> Client" where
  "pop_future k c = c\<lparr>response_futures := (response_futures c)(k := None)\<rparr>"

text \<open>
  The task of a blocking \<open>send_msg\<close> from \<open>wait_for\<close> on: it waits on future \<open>f\<close>, registered
  under key \<open>k\<close>, while the events happen in order. A result set on the future wakes the
  task, which returns it; the timer cancels the future and raises \<open>TimeoutError\<close> in the
  task, which logs the warning and returns \<open>None\<close>; both ways pass the \<open>finally\<close> block.
\<close>

fun wait_for :: "json module_defaults \<Rightarrow> Client \<Rightarrow> json \<Rightarrow> nat \<Rightarrow> json \<Rightarrow> event list \<Rightarrow> outcome \<times> Client" where
  "wait_for md c u f k [] = (Suspended, c)"
| "wait_for md c u f k (TimerFires # es) =
     (Returned_value None,
      pop_future k (log WARNING (TimeoutWaiting u) (c\<lparr>futures := (futures c)(f := Cancelled)\<rparr>)))"
| "wait_for md c u f k (ConnectionEnds exc # es) = wait_for md (connection_ends exc c) u f k es"
| "wait_for md c u f k (Frame message # es) =
     (if reading c then
        (let c1 = Client_process_message md c message in
         case futures c1 f of
           Result reply \<Rightarrow> (Returned_value (Some reply), pop_future k c1)
         | _ \<Rightarrow> wait_for md c1 u f k es)
      else wait_for md c u f k es)"

text \<open>
  \<open>send_msg\<close>, with the events that happen while it waits. Without a connection the
  attribute \<open>send\<close> is looked up on \<open>None\<close>; a closed connection raises in \<open>send\<close>; storing
  the future under an unhashable \<open>uuid\<close> raises. The \<open>timeout\<close> itself is the event
  \<open>TimerFires\<close>.
\<close>

definition send_msg ::
    "json module_defaults \<Rightarrow> Client \<Rightarrow> json Message \<Rightarrow> bool \<Rightarrow> event list \<Rightarrow> outcome \<times> Client" where
  "send_msg md c msg blocking es =
     (case websocket c of
        None \<Rightarrow> (Raised AttributeError, log DEBUG (Sending (to_json msg)) (log CRITICAL NotConnected c))
      | Some w \<Rightarrow>
          (let c1 = log DEBUG (Sending (to_json msg)) c in
           if w = WsClosed then (Raised ConnectionClosed, c1)
           else
             (let c2 = c1\<lparr>sent := sent c1 @ [to_json msg]\<rparr> in
              if blocking then
                (let f = next_future c2;
                     c3 = c2\<lparr>futures := (futures c2)(f := Pending), next_future := Suc f\<rparr>
                 in case py_key (uuid msg) of
                      Inl e \<Rightarrow> (Raised e, c3)
                    | Inr k \<Rightarrow>
                        wait_for md (c3\<lparr>response_futures := (response_futures c3)(k \<mapsto> f)\<rparr>)
                          (uuid msg) f k es)
              else (Returned_value None, c2))))"

text \<open>The state in which a blocking send starts to wait.\<close>

definition waiting_state :: "Client \<Rightarrow> json Message \<Rightarrow> json \<Rightarrow> Client" where
  "waiting_state c msg k =
     (log DEBUG (Sending (to_json msg)) c)
       \<lparr>sent := sent c @ [to_json msg],
        futures := (futures c)(next_future c := Pending),
        next_future := Suc (next_future c),
        response_futures := (response_futures c)(k \<mapsto> next_future c)\<rparr>"

section \<open>Values that are dictionaries all the way down, and the wire format\<close>

text \<open>
  An association list stands for a Python dictionary only if its keys are distinct; a
  value is well formed when that holds for every object in it.
\<close>

fun wf_json :: "json \<Rightarrow> bool" where
  "wf_json (JArr vs) = list_all wf_json vs"
| "wf_json (JObj kvs) = (distinct (map fst kvs) \<and> list_all (\<lambda>(k, v). wf_json v) kvs)"
| "wf_json v = True"

text \<open>The printable ASCII range.\<close>

definition printable :: "char \<Rightarrow> bool" where
  "printable c = (32 \<le> (of_char c :: nat) \<and> (of_char c :: nat) \<le> 126)"

text \<open>
  Following the words of the spec: an object with exactly the fields \<open>id\<close> (a number), \<open>code\<close>
  (a string) and \<open>data\<close> (an object), and a text that denotes such an object.
\<close>

definition spec_wire_object :: "json \<Rightarrow> bool" where
  "spec_wire_object v =
     (case v of
        JObj kvs \<Rightarrow>
          length kvs = 3 \<and>
          (case map_of kvs ''id'' of Some (JInt i) \<Rightarrow> True | _ \<Rightarrow> False) \<and>
          (case map_of kvs ''code'' of Some (JStr c) \<Rightarrow> True | _ \<Rightarrow> False) \<and>
          (case map_of kvs ''data'' of Some (JObj d) \<Rightarrow> True | _ \<Rightarrow> False)
      | _ \<Rightarrow> False)"

definition wire_matches_spec :: "string \<Rightarrow> bool" where
  "wire_matches_spec s = (case json_loads s of Inl e \<Rightarrow> False | Inr v \<Rightarrow> spec_wire_object v)"

text \<open>
  For the proofs about the parser: what may follow a value in the text that \<open>json_dumps\<close>
  writes, the characters a value can start with, and a number of nested calls that is
  enough to read a value back.
\<close>

definition ok_rest :: "string \<Rightarrow> bool" where
  "ok_rest r = (case r of [] \<Rightarrow> True | c # cs \<Rightarrow> c = CHR '','' \<or> c = CHR '']'' \<or> c = CHR ''}'')"

definition value_start :: "char \<Rightarrow> bool" where
  "value_start c =
     (c = CHR ''n'' \<or> c = CHR ''t'' \<or> c = CHR ''f'' \<or> c = CHR ''-'' \<or> is_digit c \<or>
      c = quote \<or> c = CHR ''['' \<or> c = CHR ''{'')"

fun fuel :: "json \<Rightarrow> nat" where
  "fuel (JArr vs) = Suc (sum_list (map (\<lambda>v. Suc (fuel v)) vs))"
| "fuel (JObj kvs) = Suc (sum_list (map (\<lambda>(k, v). Suc (fuel v)) kvs))"
| "fuel v = 1"

section \<open>Reading the handler table and the record of invocations\<close>







section \<open>Concrete inputs\<close>

text \<open>
  A module state, a connected client with a handler for \<open>"PONG"\<close> and one for \<open>"ALL"\<close>, a
  request with \<open>uuid\<close> 2, and the frame of a reply to it.
\<close>

definition example_defaults :: "json module_defaults" where
  "example_defaults = \<lparr>default_uuid = JInt 7, default_data = JObj []\<rparr>"

definition example_client :: Client where
  "example_client =
     connect
       (on_message ''ALL'' (PlainDef ''on_any'' (\<lambda>m. PValue))
          (on_message ''PONG'' (AsyncDef ''on_pong'' (\<lambda>m. False))
             (Client_init ''ws://localhost:8765'')))"

definition example_request :: "json Message" where
  "example_request = Message_init example_defaults (JStr ''PING'') (Some (JInt 2)) (Some (JObj []))"

definition example_reply_frame :: string where
  \<open>example_reply_frame = ''{"uuid": 2, "code": "PONG", "data": {"ok": true}}''\<close>

definition example_reply :: "json Message" where
  "example_reply = \<lparr>uuid = JInt 2, code = JStr ''PONG'', data = JObj [(''ok'', JBool True)]\<rparr>"



definition example_ping_frame :: string where
  \<open>example_ping_frame = ''{"uuid": 1, "code": "PING", "data": {}}''\<close>

definition example_ping :: "json Message" where
  "example_ping = \<lparr>uuid = JInt 1, code = JStr ''PING'', data = JObj []\<rparr>"


section \<open>Default arguments of \<open>Message\<close>\<close>

text \<open>
  C4. Two constructions without an explicit \<open>uuid\<close> should get two distinct fresh
  identifiers. In the code both get the one integer drawn when the module was imported:
  for every draw \<open>r\<close> and any two constructions, the identifiers are both \<open>r\<close>.
\<close>

theorem default_uuid_is_shared:
  "uuid (Message_init (fst (import_message r h)) c1 None d1) = JInt r \<and>
   uuid (Message_init (fst (import_message r h)) c2 None d2) = JInt r"
  by (simp add: Message_init_def import_message_def new_dict_def)

text \<open>
  C5. Two constructions without a payload should get a fresh empty dictionary each. In
  the code both hold the address of the one dictionary made at import: it is empty for
  the first constructions, an item stored through one message is read through the other,
  and a message constructed afterwards starts with that item.
\<close>

theorem default_data_is_shared:
  "(let md = fst (import_message r h);
        h1 = snd (import_message r h);
        m1 = Message_init md c1 u1 None;
        m2 = Message_init md c2 u2 None;
        h2 = dict_setitem h1 (data m1) k v
    in data m1 = data m2 \<and>
       payload h1 m1 = Some [] \<and> payload h1 m2 = Some [] \<and>
       payload h2 m2 = Some [(k, v)] \<and>
       payload h2 (Message_init md c3 u3 None) = Some [(k, v)])"
  by (simp add: Message_init_def import_message_def new_dict_def dict_setitem_def payload_def Let_def)

section \<open>The client never reaches its handlers or its futures\<close>

text \<open>
  C1. A blocking send whose reply arrives before the timeout should return the reply.
  The client below is connected and sends the request with \<open>uuid\<close> 2; the frame of a reply
  with \<open>uuid\<close> 2 arrives, then the timer fires. \<open>_dispatch_message\<close> raises \<open>AttributeError\<close>
  on \<open>self._events\<close>, \<open>_process_message\<close> logs it and skips \<open>set_result\<close>, and the send
  returns \<open>None\<close>.
\<close>

theorem blocking_send_misses_reply:
  "from_json example_defaults example_reply_frame = Inr example_reply \<and>
   uuid example_reply = uuid example_request \<and>
   fst (send_msg example_defaults example_client example_request True
          [Frame example_reply_frame, TimerFires]) = Returned_value None"
  by code_simp

text \<open>
  C2. Every inbound message should reach both the handlers and the correlation table.
  The client has a handler for \<open>"PONG"\<close>, one for \<open>"ALL"\<close> and a pending wait for \<open>uuid\<close> 2; on
  the reply frame no handler runs, the future stays pending, and the last call of the
  logger is the error report of the \<open>AttributeError\<close>.
\<close>

theorem inbound_message_reaches_nothing:
  "(let c = snd (send_msg example_defaults example_client example_request True []);
        c' = Client_process_message example_defaults c example_reply_frame
    in response_futures c (JInt 2) = Some 0 \<and> futures c 0 = Pending \<and>
       registed_callbacks c ''PONG'' \<noteq> None \<and> registed_callbacks c ''ALL'' \<noteq> None \<and>
       invoked c' = [] \<and> futures c' 0 = Pending \<and>
       last (logged c') = (ERROR, ErrorProcessing example_reply_frame AttributeError))"
  by code_simp

section \<open>Dispatch on the server\<close>










section \<open>Waiting for a reply on the client\<close>

lemma wait_for_append:
  "wait_for md c u f k es1 = (Suspended, c1) \<Longrightarrow>
   wait_for md c u f k (es1 @ es2) = wait_for md c1 u f k es2"
proof (induction md c u f k es1 rule: wait_for.induct)
  case (1 md c u f k)
  then show ?case by simp
next
  case (2 md c u f k es)
  then show ?case by simp
next
  case (3 md c u f k exc es)
  then show ?case by simp
next
  case (4 md c u f k message es)
  then show ?case
    by (auto simp: Let_def split: if_splits future_state.splits)
qed


lemma wait_for_closed:
  "\<not> reading c \<Longrightarrow> list_all (\<lambda>e. e \<noteq> TimerFires) es \<Longrightarrow>
   fst (wait_for md c u f k es) = Suspended \<and> \<not> reading (snd (wait_for md c u f k es))"
proof (induction md c u f k es rule: wait_for.induct)
  case (1 md c u f k)
  then show ?case by simp
next
  case (2 md c u f k es)
  then show ?case by simp
next
  case (3 md c u f k exc es)
  then show ?case by (simp add: connection_ends_def log_def Let_def)
next
  case (4 md c u f k message es)
  then show ?case by simp
qed

lemma send_msg_waits:
  "websocket c = Some WsOpen \<Longrightarrow> py_key (uuid msg) = Inr k \<Longrightarrow>
   send_msg md c msg True es = wait_for md (waiting_state c msg k) (uuid msg) (next_future c) k es"
  by (simp add: send_msg_def waiting_state_def Let_def log_def)

lemma send_msg_suspended:
  assumes "send_msg md c msg True es = (Suspended, c1)"
  shows "websocket c = Some WsOpen \<and> (\<exists>k. py_key (uuid msg) = Inr k)"
proof (cases "websocket c")
  case None
  then show ?thesis using assms by (simp add: send_msg_def)
next
  case (Some w)
  show ?thesis
  proof (cases w)
    case WsClosed
    then show ?thesis using assms Some by (simp add: send_msg_def Let_def)
  next
    case WsOpen
    show ?thesis
    proof (cases "py_key (uuid msg)")
      case (Inl e)
      then show ?thesis using assms Some WsOpen by (simp add: send_msg_def Let_def)
    next
      case (Inr k)
      then show ?thesis using Some WsOpen by simp
    qed
  qed
qed



text \<open>
  C3, as the code has it. When the connection ends while a blocking send waits, the wait
  is not resolved by the closure nor by anything that follows it: the task stays
  suspended until its timer fires, and then returns \<open>None\<close> as for a timeout, with its entry
  removed from \<open>_response_futures\<close>.
\<close>

theorem closure_does_not_resolve_wait:
  assumes "send_msg md c msg True es1 = (Suspended, c1)"
    and "list_all (\<lambda>e. e \<noteq> TimerFires) es2"
  shows "fst (send_msg md c msg True (es1 @ ConnectionEnds exc # es2)) = Suspended \<and>
         fst (send_msg md c msg True (es1 @ ConnectionEnds exc # es2 @ [TimerFires])) = Returned_value None \<and>
         (\<forall>k. py_key (uuid msg) = Inr k \<longrightarrow>
              response_futures (snd (send_msg md c msg True (es1 @ ConnectionEnds exc # es2 @ [TimerFires]))) k = None)"
proof -
  from send_msg_suspended[OF assms(1)] obtain k
    where w: "websocket c = Some WsOpen" and k: "py_key (uuid msg) = Inr k"
    by blast
  note s = send_msg_waits[OF w k]
  define c0 where "c0 = waiting_state c msg k"
  define f where "f = next_future c"
  have a: "wait_for md c0 (uuid msg) f k es1 = (Suspended, c1)"
    using assms(1) unfolding s c0_def f_def .
  have nr: "\<not> reading (connection_ends exc c1)"
    by (simp add: connection_ends_def log_def Let_def)
  from wait_for_closed[OF nr assms(2), of md "uuid msg" f k]
  obtain c2 where b: "wait_for md (connection_ends exc c1) (uuid msg) f k es2 = (Suspended, c2)"
    by (metis prod.collapse)
  have c: "wait_for md c0 (uuid msg) f k (es1 @ ConnectionEnds exc # es2) = (Suspended, c2)"
    unfolding wait_for_append[OF a] using b by simp
  have d: "wait_for md c0 (uuid msg) f k ((es1 @ ConnectionEnds exc # es2) @ [TimerFires]) =
             (Returned_value None,
              pop_future k (log WARNING (TimeoutWaiting (uuid msg))
                 (c2\<lparr>futures := (futures c2)(f := Cancelled)\<rparr>)))"
    unfolding wait_for_append[OF c] by simp
  show ?thesis
    unfolding s c0_def[symmetric] f_def[symmetric] using c d k
    by (simp add: pop_future_def log_def)
qed

theorem closure_does_not_resolve_wait_witness:
  "fst (send_msg example_defaults example_client example_request True
          [Frame example_ping_frame, ConnectionEnds True, Frame example_reply_frame]) = Suspended \<and>
   fst (send_msg example_defaults example_client example_request True
          [Frame example_ping_frame, ConnectionEnds True, Frame example_reply_frame, TimerFires]) = Returned_value None"
proof -
  have "fst (send_msg example_defaults example_client example_request True [Frame example_ping_frame]) = Suspended"
    by code_simp
  then have a: "send_msg example_defaults example_client example_request True [Frame example_ping_frame] =
             (Suspended, snd (send_msg example_defaults example_client example_request True [Frame example_ping_frame]))"
    by (simp add: prod_eq_iff)
  have b: "list_all (\<lambda>e. e \<noteq> TimerFires) [Frame example_reply_frame]"
    by simp
  show ?thesis
    using closure_does_not_resolve_wait[OF a b, of True] by simp
qed

text \<open>
  C3 as stated fails: the connection of the waiting client ends with \<open>ConnectionClosed\<close> in
  \<open>_message_handler\<close>; the task of the blocking send is still suspended afterwards, and
  when the timer fires it returns \<open>None\<close>, not a \<open>ConnectionClosed\<close> outcome.
\<close>

theorem closure_leaves_wait_blocked:
  "fst (send_msg example_defaults example_client example_request True [ConnectionEnds True]) = Suspended \<and>
   fst (send_msg example_defaults example_client example_request True [ConnectionEnds True, TimerFires])
     = Returned_value None \<and>
   fst (send_msg example_defaults example_client example_request True [ConnectionEnds True, TimerFires])
     \<noteq> Raised ConnectionClosed"
  by code_simp

section \<open>Writing a value and reading it back\<close>

declare dec.simps [simp del]

lemma of_char_lt: "(of_char c :: nat) < 256"
  by (cases c) (simp add: of_char_def) 

lemma hex_val_hex_digit: "d < 16 \<Longrightarrow> hex_val (hex_digit d) = Some d"
  by (auto simp: hex_val_def hex_digit_def Let_def)

lemma hex4_escape:
  "hex4 CHR ''0'' CHR ''0'' (hex_digit ((of_char c :: nat) div 16)) (hex_digit ((of_char c :: nat) mod 16))
     = Some (of_char c)"
proof -
  have a: "(of_char c :: nat) div 16 < 16"
    by (rule less_mult_imp_div_less) (use of_char_lt[of c] in simp)
  have b: "hex_val CHR ''0'' = Some 0"
    by (simp add: hex_val_def)
  show ?thesis
    unfolding hex4_def b hex_val_hex_digit[OF a] by (simp add: hex_val_hex_digit)
qed

lemma scanstring_escape_char:
  "scanstring (escape_char c @ tail) acc = scanstring tail (acc @ [c])"
proof -
  consider (q) "c = quote" | (b) "c = backslash" | (n) "c = CHR 0x0A" | (r) "c = CHR 0x0D"
    | (t) "c = CHR 0x09" | (bs) "c = CHR 0x08" | (f) "c = CHR 0x0C"
    | (p) "c \<noteq> quote" "c \<noteq> backslash" "32 \<le> (of_char c :: nat)" "(of_char c :: nat) \<le> 126"
    | (u) "c \<noteq> quote" "c \<noteq> backslash" "c \<noteq> CHR 0x0A" "c \<noteq> CHR 0x0D" "c \<noteq> CHR 0x09"
          "c \<noteq> CHR 0x08" "c \<noteq> CHR 0x0C" "\<not> (32 \<le> (of_char c :: nat) \<and> (of_char c :: nat) \<le> 126)"
    by blast
  then show ?thesis
  proof cases
    case q
    then show ?thesis by (simp add: escape_char_def unescape_def quote_def backslash_def)
  next
    case b
    then show ?thesis by (simp add: escape_char_def unescape_def quote_def backslash_def)
  next
    case n
    then show ?thesis by (simp add: escape_char_def unescape_def quote_def backslash_def)
  next
    case r
    then show ?thesis by (simp add: escape_char_def unescape_def quote_def backslash_def)
  next
    case t
    then show ?thesis by (simp add: escape_char_def unescape_def quote_def backslash_def)
  next
    case bs
    then show ?thesis by (simp add: escape_char_def unescape_def quote_def backslash_def)
  next
    case f
    then show ?thesis by (simp add: escape_char_def unescape_def quote_def backslash_def)
  next
    case p
    have e: "escape_char c = [c]"
      using p by (auto simp: escape_char_def)
    show ?thesis
      unfolding e using p by simp
  next
    case u
    have e: "escape_char c = [backslash, CHR ''u'', CHR ''0'', CHR ''0'',
            hex_digit ((of_char c :: nat) div 16), hex_digit ((of_char c :: nat) mod 16)]"
      using u by (simp add: escape_char_def)
    have bq: "backslash \<noteq> quote" by (simp add: quote_def backslash_def)
    show ?thesis
      unfolding e using bq of_char_lt[of c] by (simp add: hex4_escape)
  qed
qed

lemma scanstring_body:
  "scanstring (concat (map escape_char s) @ quote # rest) acc = Inr (acc @ s, rest)"
proof (induction s arbitrary: acc)
  case Nil
  show ?case by simp
next
  case (Cons c s)
  have "scanstring (concat (map escape_char (c # s)) @ quote # rest) acc
          = scanstring (escape_char c @ (concat (map escape_char s) @ quote # rest)) acc"
    by simp
  also have "\<dots> = scanstring (concat (map escape_char s) @ quote # rest) (acc @ [c])"
    by (rule scanstring_escape_char)
  also have "\<dots> = Inr ((acc @ [c]) @ s, rest)"
    by (rule Cons.IH)
  finally show ?case by simp
qed

lemma of_char_digit: "(k::nat) < 10 \<Longrightarrow> (of_char (char_of (48 + k)) :: nat) = 48 + k"
  by simp

lemma is_digit_char_of: "(k::nat) < 10 \<Longrightarrow> is_digit (char_of (48 + k))"
  by (simp add: is_digit_def)

lemma dec_digits: "list_all is_digit (dec n)"
proof (induction n rule: dec.induct)
  case (1 n)
  show ?case
  proof (cases "n < 10")
    case True
    then show ?thesis by (subst dec.simps) (simp add: is_digit_char_of)
  next
    case False
    have "n mod 10 < 10" by simp
    then have "is_digit (char_of (48 + n mod 10))" by (rule is_digit_char_of)
    with False 1 show ?thesis by (subst dec.simps) simp
  qed
qed

lemma dec_not_empty: "dec n \<noteq> []"
  by (subst dec.simps) simp

lemma dec_value: "foldl (\<lambda>a c. a * 10 + ((of_char c :: nat) - 48)) 0 (dec n) = n"
proof (induction n rule: dec.induct)
  case (1 n)
  show ?case
  proof (cases "n < 10")
    case True
    then show ?thesis by (subst dec.simps) simp
  next
    case False
    have m: "n mod 10 < 10" by simp
    show ?thesis
      using False 1 by (subst dec.simps) (simp add: of_char_digit[OF m])
  qed
qed

lemma dec_hd: "0 < n \<Longrightarrow> hd (dec n) \<noteq> CHR ''0''"
proof (induction n rule: dec.induct)
  case (1 n)
  show ?case
  proof (cases "n < 10")
    case True
    have "(of_char (hd (dec n)) :: nat) = 48 + n"
      using True by (subst dec.simps) simp
    moreover have "(of_char CHR ''0'' :: nat) = 48" by simp
    ultimately show ?thesis using \<open>0 < n\<close> by auto
  next
    case False
    then have "0 < n div 10" by simp
    with 1 False have "hd (dec (n div 10)) \<noteq> CHR ''0''" by simp
    then show ?thesis
      using False dec_not_empty[of "n div 10"] by (subst dec.simps) simp
  qed
qed

lemma scan_digits_append:
  "list_all is_digit ds \<Longrightarrow>
   scan_digits (ds @ rest) acc =
     scan_digits rest (foldl (\<lambda>a c. a * 10 + ((of_char c :: nat) - 48)) acc ds)"
  by (induction ds arbitrary: acc) simp_all

lemma scan_digits_stop: "ok_rest rest \<Longrightarrow> scan_digits rest acc = (acc, rest)"
  by (cases rest) (auto simp: ok_rest_def is_digit_def)

lemma float_tail_ok_rest: "ok_rest rest \<Longrightarrow> \<not> float_tail rest"
proof (cases rest)
  case Nil
  then show ?thesis by simp
next
  case (Cons c cs)
  assume "ok_rest rest"
  then show ?thesis
    using Cons by (cases cs) (auto simp: ok_rest_def)
qed

lemma scan_nat_dec: "ok_rest rest \<Longrightarrow> scan_nat (dec n @ rest) = (n, rest)"
proof (cases "n = 0")
  case True
  assume "ok_rest rest"
  have "char_of (48::nat) = CHR ''0''" by code_simp
  then have "dec 0 = ''0''" by (subst dec.simps) simp
  then show ?thesis using True by (simp add: scan_nat_def)
next
  case False
  assume r: "ok_rest rest"
  obtain c cs where d: "dec n = c # cs"
    using dec_not_empty[of n] by (cases "dec n") auto
  have c: "c \<noteq> CHR ''0''"
    using dec_hd[of n] False d by simp
  have "scan_nat (dec n @ rest) = scan_digits (dec n @ rest) 0"
    using c d by (simp add: scan_nat_def)
  also have "\<dots> = scan_digits rest n"
    by (simp add: scan_digits_append[OF dec_digits] dec_value)
  also have "\<dots> = (n, rest)"
    using r by (rule scan_digits_stop)
  finally show ?thesis .
qed

lemma dec_hd_digit: "is_digit (hd (dec n))"
  using dec_digits[of n] dec_not_empty[of n] by (cases "dec n") auto

lemma scan_number_int:
  assumes "ok_rest rest"
  shows "scan_number (dumps_int i @ rest) = Inr (JInt i, rest)"
proof (cases "i < 0")
  case False
  obtain c cs where d: "dec (nat i) = c # cs"
    using dec_not_empty[of "nat i"] by (cases "dec (nat i)") auto
  have c: "is_digit c"
    using dec_hd_digit[of "nat i"] d by simp
  have "scan_number (dec (nat i) @ rest) = Inr (JInt (int (nat i)), rest)"
    unfolding scan_number_def
    using c scan_nat_dec[OF assms, of "nat i"] float_tail_ok_rest[OF assms] by (simp add: d)
  then show ?thesis using False by (simp add: dumps_int_def)
next
  case True
  obtain c cs where d: "dec (nat (- i)) = c # cs"
    using dec_not_empty[of "nat (- i)"] by (cases "dec (nat (- i))") auto
  have c: "is_digit c"
    using dec_hd_digit[of "nat (- i)"] d by simp
  have m: "\<not> is_digit CHR ''-''" by (simp add: is_digit_def)
  have "scan_number (CHR ''-'' # dec (nat (- i)) @ rest) = Inr (JInt (- int (nat (- i))), rest)"
    unfolding scan_number_def
    using c m scan_nat_dec[OF assms, of "nat (- i)"] float_tail_ok_rest[OF assms] by (simp add: d)
  then show ?thesis using True by (simp add: dumps_int_def)
qed

lemma skip_ws_start: "value_start c \<Longrightarrow> skip_ws (c # cs) = c # cs"
  by (auto simp: value_start_def is_ws_def is_digit_def quote_def)

lemma skip_ws_ok_rest: "ok_rest r \<Longrightarrow> skip_ws r = r"
  by (cases r) (auto simp: ok_rest_def is_ws_def)

lemma dumps_int_start: "\<exists>c cs. dumps_int i = c # cs \<and> (c = CHR ''-'' \<or> is_digit c)"
proof (cases "i < 0")
  case True
  then show ?thesis by (simp add: dumps_int_def)
next
  case False
  obtain c cs where d: "dec (nat i) = c # cs"
    using dec_not_empty[of "nat i"] by (cases "dec (nat i)") auto
  have "is_digit c" using dec_hd_digit[of "nat i"] d by simp
  then show ?thesis using False d by (simp add: dumps_int_def)
qed

lemma dumps_start: "\<exists>c cs. json_dumps v = c # cs \<and> value_start c"
proof (cases v)
  case (JInt i)
  then show ?thesis using dumps_int_start[of i] by (auto simp: value_start_def)
qed (auto simp: value_start_def dumps_str_def)

lemma skip_ws_dumps: "skip_ws (json_dumps v @ r) = json_dumps v @ r"
proof -
  obtain c cs where d: "json_dumps v = c # cs" and c: "value_start c"
    using dumps_start[of v] by blast
  show ?thesis
    unfolding d using skip_ws_start[OF c, of "cs @ r"] by simp
qed

lemma skip_ws_space_dumps: "skip_ws (CHR '' '' # json_dumps v @ r) = json_dumps v @ r"
  using skip_ws_dumps[of v r] by (simp add: is_ws_def)

lemma scan_once_null: "scan_once (Suc n) (''null'' @ rest) = Inr (JNull, rest)"
  by (simp add: starts_with_def quote_def)

lemma scan_once_true: "scan_once (Suc n) (''true'' @ rest) = Inr (JBool True, rest)"
  by (simp add: starts_with_def quote_def)

lemma scan_once_false: "scan_once (Suc n) (''false'' @ rest) = Inr (JBool False, rest)"
  by (simp add: starts_with_def quote_def)

lemma scan_once_str: "scan_once (Suc n) (dumps_str s @ rest) = Inr (JStr s, rest)"
  using scanstring_body[of s rest "[]"] by (simp add: dumps_str_def)

lemma scan_once_int:
  assumes "ok_rest rest"
  shows "scan_once (Suc n) (dumps_int i @ rest) = Inr (JInt i, rest)"
proof -
  obtain c cs where d: "dumps_int i = c # cs" and c: "c = CHR ''-'' \<or> is_digit c"
    using dumps_int_start[of i] by blast
  have "c \<noteq> quote" "c \<noteq> CHR ''{''" "c \<noteq> CHR ''[''" "c \<noteq> CHR ''n''" "c \<noteq> CHR ''t''" "c \<noteq> CHR ''f''"
    using c by (auto simp: is_digit_def quote_def)
  then have "scan_once (Suc n) ((c # cs) @ rest) = scan_number ((c # cs) @ rest)"
    by (simp add: starts_with_def)
  then show ?thesis
    using scan_number_int[OF assms, of i] by (simp add: d)
qed

lemma scan_array_join:
  assumes "\<And>v n rest. v \<in> set vs \<Longrightarrow> fuel v \<le> n \<Longrightarrow> ok_rest rest \<Longrightarrow>
             scan_once n (json_dumps v @ rest) = Inr (v, rest)"
    and "vs \<noteq> []"
    and "sum_list (map (\<lambda>v. Suc (fuel v)) vs) \<le> n"
  shows "scan_array n (join '', '' (map json_dumps vs) @ CHR '']'' # rest) acc = Inr (JArr (acc @ vs), rest)"
  using assms
proof (induction vs arbitrary: n acc)
  case Nil
  then show ?case by simp
next
  case (Cons v vs)
  from Cons.prems(3) obtain m where n: "n = Suc m" and fv: "fuel v \<le> m"
    and rest_fuel: "sum_list (map (\<lambda>v. Suc (fuel v)) vs) \<le> m"
    by (cases n) auto
  show ?case
  proof (cases vs)
    case Nil
    have ok: "ok_rest (CHR '']'' # rest)" by (simp add: ok_rest_def)
    have "scan_once m (json_dumps v @ CHR '']'' # rest) = Inr (v, CHR '']'' # rest)"
      using Cons.prems(1)[of v m, OF _ fv ok] by simp
    then show ?thesis
      using Nil by (simp add: n is_ws_def)
  next
    case inner: (Cons v' vs')
    define tail where "tail = join '', '' (map json_dumps vs) @ CHR '']'' # rest"
    have ok: "ok_rest (CHR '','' # CHR '' '' # tail)" by (simp add: ok_rest_def)
    have a: "scan_once m (json_dumps v @ CHR '','' # CHR '' '' # tail) = Inr (v, CHR '','' # CHR '' '' # tail)"
      using Cons.prems(1)[of v m, OF _ fv ok] by simp
    have "\<exists>r. tail = json_dumps v' @ r"
      unfolding tail_def inner by (cases vs') simp_all
    then obtain r where t: "tail = json_dumps v' @ r" by blast
    have sk: "skip_ws (CHR '' '' # tail) = tail"
      unfolding t by (rule skip_ws_space_dumps)
    have ih: "scan_array m tail (acc @ [v]) = Inr (JArr ((acc @ [v]) @ vs), rest)"
      unfolding tail_def
      using Cons.IH[of m "acc @ [v]"] Cons.prems(1) rest_fuel inner by simp
    have whole: "join '', '' (map json_dumps (v # vs)) @ CHR '']'' # rest
                 = json_dumps v @ CHR '','' # CHR '' '' # tail"
      unfolding tail_def inner by simp
    show ?thesis
      unfolding whole n using a sk ih by (simp add: is_ws_def)
  qed
qed

lemma dict_set_fresh: "k \<notin> set (map fst acc) \<Longrightarrow> dict_set acc k v = acc @ [(k, v)]"
  by (induction acc) auto

lemma scan_object_member:
  assumes "scan_once m (json_dumps v @ d # r3) = Inr (v, d # r3)"
    and "ok_rest (d # r3)"
  shows "scan_object (Suc m) (dumps_str k @ '': '' @ json_dumps v @ d # r3) acc =
           (if d = CHR ''}'' then Inr (JObj (dict_set acc k v), r3)
            else if d = CHR '','' then scan_object m (skip_ws r3) (dict_set acc k v)
            else Inl JSONDecodeError)"
proof -
  define Z where "Z = json_dumps v @ d # r3"
  define Y where "Y = CHR '' '' # Z"
  have s1: "scanstring (concat (map escape_char k) @ quote # CHR '':'' # Y) [] = Inr (k, CHR '':'' # Y)"
    using scanstring_body[of k "CHR '':'' # Y" "[]"] by simp
  have s2: "skip_ws (CHR '':'' # Y) = CHR '':'' # Y"
    by (simp add: is_ws_def)
  have s3: "skip_ws Y = Z"
    unfolding Y_def Z_def by (rule skip_ws_space_dumps)
  have s4: "skip_ws (d # r3) = d # r3"
    using assms(2) by (rule skip_ws_ok_rest)
  have s5: "scan_once m Z = Inr (v, d # r3)"
    unfolding Z_def by (rule assms(1))
  have whole: "dumps_str k @ '': '' @ json_dumps v @ d # r3 =
                 quote # concat (map escape_char k) @ quote # CHR '':'' # Y"
    by (simp add: dumps_str_def Y_def Z_def)
  show ?thesis
    unfolding whole by (simp add: s1 s2 s3 s4 s5 del: skip_ws.simps)
qed

lemma scan_object_join:
  assumes "\<And>k v n rest. (k, v) \<in> set kvs \<Longrightarrow> fuel v \<le> n \<Longrightarrow> ok_rest rest \<Longrightarrow>
             scan_once n (json_dumps v @ rest) = Inr (v, rest)"
    and "kvs \<noteq> []"
    and "sum_list (map (\<lambda>(k, v). Suc (fuel v)) kvs) \<le> n"
    and "distinct (map fst (acc @ kvs))"
  shows "scan_object n
           (join '', '' (map (\<lambda>(k, v). dumps_str k @ '': '' @ json_dumps v) kvs) @ CHR ''}'' # rest) acc
         = Inr (JObj (acc @ kvs), rest)"
  using assms
proof (induction kvs arbitrary: n acc)
  case Nil
  then show ?case by simp
next
  case (Cons kv kvs)
  obtain k v where kv: "kv = (k, v)" by (cases kv)
  from Cons.prems(3) obtain m where n: "n = Suc m" and fv: "fuel v \<le> m"
    and rest_fuel: "sum_list (map (\<lambda>(k, v). Suc (fuel v)) kvs) \<le> m"
    by (cases n) (auto simp: kv)
  have fresh: "k \<notin> set (map fst acc)"
    using Cons.prems(4) by (auto simp: kv)
  have ds: "dict_set acc k v = acc @ [(k, v)]"
    using fresh by (rule dict_set_fresh)
  have mem: "(k, v) \<in> set (kv # kvs)" by (simp add: kv)
  show ?case
  proof (cases kvs)
    case Nil
    have ok: "ok_rest (CHR ''}'' # rest)" by (simp add: ok_rest_def)
    have a: "scan_once m (json_dumps v @ CHR ''}'' # rest) = Inr (v, CHR ''}'' # rest)"
      using mem fv ok by (rule Cons.prems(1))
    have whole: "join '', '' (map (\<lambda>(k, v). dumps_str k @ '': '' @ json_dumps v) (kv # kvs)) @ CHR ''}'' # rest
                 = dumps_str k @ '': '' @ json_dumps v @ CHR ''}'' # rest"
      unfolding Nil kv by simp
    show ?thesis
      unfolding whole n scan_object_member[OF a ok] ds by (simp add: Nil kv)
  next
    case inner: (Cons kv' kvs')
    obtain k' v' where kv': "kv' = (k', v')" by (cases kv')
    define tail where
      "tail = join '', '' (map (\<lambda>(k, v). dumps_str k @ '': '' @ json_dumps v) kvs) @ CHR ''}'' # rest"
    have ok: "ok_rest (CHR '','' # CHR '' '' # tail)" by (simp add: ok_rest_def)
    have a: "scan_once m (json_dumps v @ CHR '','' # CHR '' '' # tail) = Inr (v, CHR '','' # CHR '' '' # tail)"
      using mem fv ok by (rule Cons.prems(1))
    have "\<exists>r. tail = quote # r"
      unfolding tail_def inner kv' by (cases kvs') (simp_all add: dumps_str_def)
    then obtain r where t: "tail = quote # r" by blast
    have sk: "skip_ws (CHR '' '' # tail) = tail"
      unfolding t by (simp add: is_ws_def quote_def)
    have h1: "scan_once n' (json_dumps v'' @ rest') = Inr (v'', rest')"
      if "(k'', v'') \<in> set kvs" "fuel v'' \<le> n'" "ok_rest rest'" for k'' v'' n' rest'
    proof -
      have "(k'', v'') \<in> set (kv # kvs)" using that(1) by simp
      then show ?thesis using that(2,3) by (rule Cons.prems(1))
    qed
    have h2: "kvs \<noteq> []" using inner by simp
    have h4: "distinct (map fst ((acc @ [(k, v)]) @ kvs))"
      using Cons.prems(4) by (simp add: kv)
    have ih: "scan_object m tail (acc @ [(k, v)]) = Inr (JObj ((acc @ [(k, v)]) @ kvs), rest)"
      unfolding tail_def using h1 h2 rest_fuel h4 by (rule Cons.IH)
    have whole: "join '', '' (map (\<lambda>(k, v). dumps_str k @ '': '' @ json_dumps v) (kv # kvs)) @ CHR ''}'' # rest
                 = dumps_str k @ '': '' @ json_dumps v @ CHR '','' # CHR '' '' # tail"
      unfolding tail_def inner kv by simp
    show ?thesis
      unfolding whole n scan_object_member[OF a ok] ds sk ih by (simp add: kv)
  qed
qed

lemma scan_once_empty_arr: "scan_once (Suc m) (CHR ''['' # CHR '']'' # rest) = Inr (JArr [], rest)"
  by (simp add: quote_def is_ws_def)

lemma scan_once_empty_obj: "scan_once (Suc m) (CHR ''{'' # CHR ''}'' # rest) = Inr (JObj [], rest)"
  by (simp add: quote_def is_ws_def)

lemma scan_once_obj_enter: "scan_once (Suc m) (CHR ''{'' # quote # r) = scan_object m (quote # r) []"
  by (simp add: quote_def is_ws_def)

lemma scan_once_arr_enter:
  assumes "value_start c" "c \<noteq> CHR '']''"
  shows "scan_once (Suc m) (CHR ''['' # c # r) = scan_array m (c # r) []"
proof -
  have s: "skip_ws (c # r) = c # r" using assms(1) by (rule skip_ws_start)
  show ?thesis
    using assms(2) by (simp add: quote_def s del: skip_ws.simps)
qed

lemma scan_once_dumps:
  "wf_json v \<Longrightarrow> fuel v \<le> n \<Longrightarrow> ok_rest rest \<Longrightarrow>
   scan_once n (json_dumps v @ rest) = Inr (v, rest)"
proof (induction v arbitrary: n rest)
  case JNull
  then obtain m where n: "n = Suc m" by (cases n) auto
  show ?case unfolding n json_dumps.simps by (rule scan_once_null)
next
  case (JBool b)
  then obtain m where n: "n = Suc m" by (cases n) auto
  show ?case
    using scan_once_true[of m rest] scan_once_false[of m rest]
    by (cases b) (simp_all add: n del: scan_once.simps)
next
  case (JInt i)
  then obtain m where n: "n = Suc m" by (cases n) auto
  show ?case unfolding n json_dumps.simps using JInt.prems(3) by (rule scan_once_int)
next
  case (JStr s)
  then obtain m where n: "n = Suc m" by (cases n) auto
  show ?case unfolding n json_dumps.simps by (rule scan_once_str)
next
  case (JArr vs)
  from JArr.prems(2) obtain m where n: "n = Suc m"
    and m: "sum_list (map (\<lambda>v. Suc (fuel v)) vs) \<le> m"
    by (cases n) auto
  show ?case
  proof (cases vs)
    case Nil
    have "json_dumps (JArr vs) @ rest = CHR ''['' # CHR '']'' # rest"
      unfolding Nil by simp
    then show ?thesis
      unfolding n using scan_once_empty_arr[of m rest] Nil by simp
  next
    case (Cons v' vs')
    have elems: "scan_once k (json_dumps v @ r) = Inr (v, r)"
      if "v \<in> set vs" "fuel v \<le> k" "ok_rest r" for v k r
    proof -
      have "wf_json v" using JArr.prems(1) that(1) by (simp add: list_all_iff)
      then show ?thesis using that(2,3) by (rule JArr.IH[OF that(1)])
    qed
    have ne: "vs \<noteq> []" using Cons by simp
    have arr: "scan_array m (join '', '' (map json_dumps vs) @ CHR '']'' # rest) [] = Inr (JArr ([] @ vs), rest)"
      using elems ne m by (rule scan_array_join)
    obtain c cs where d: "json_dumps v' = c # cs" and c: "value_start c"
      using dumps_start[of v'] by blast
    have "\<exists>r. join '', '' (map json_dumps vs) @ CHR '']'' # rest = c # r"
      unfolding Cons by (cases vs') (simp_all add: d)
    then obtain r where j: "join '', '' (map json_dumps vs) @ CHR '']'' # rest = c # r" by blast
    have c2: "c \<noteq> CHR '']''"
      using c by (auto simp: value_start_def is_digit_def quote_def)
    have whole: "json_dumps (JArr vs) @ rest = CHR ''['' # c # r"
      using j by simp
    show ?thesis
      unfolding n whole scan_once_arr_enter[OF c c2] using arr unfolding j by simp
  qed
next
  case (JObj kvs)
  from JObj.prems(2) obtain m where n: "n = Suc m"
    and m: "sum_list (map (\<lambda>(k, v). Suc (fuel v)) kvs) \<le> m"
    by (cases n) auto
  show ?case
  proof (cases kvs)
    case Nil
    have "json_dumps (JObj kvs) @ rest = CHR ''{'' # CHR ''}'' # rest"
      unfolding Nil by simp
    then show ?thesis
      unfolding n using scan_once_empty_obj[of m rest] Nil by simp
  next
    case (Cons kv' kvs')
    have elems: "scan_once j (json_dumps v @ r) = Inr (v, r)"
      if "(k, v) \<in> set kvs" "fuel v \<le> j" "ok_rest r" for k v j r
    proof -
      have w: "wf_json v" using JObj.prems(1) that(1) by (auto simp: list_all_iff)
      have s: "v \<in> Basic_BNFs.snds (k, v)" by simp
      show ?thesis using that(1) s w that(2,3) by (rule JObj.IH)
    qed
    have ne: "kvs \<noteq> []" using Cons by simp
    have di: "distinct (map fst ([] @ kvs))" using JObj.prems(1) by simp
    have obj: "scan_object m
                 (join '', '' (map (\<lambda>(k, v). dumps_str k @ '': '' @ json_dumps v) kvs) @ CHR ''}'' # rest) []
               = Inr (JObj ([] @ kvs), rest)"
      using elems ne m di by (rule scan_object_join)
    obtain k' v' where kv': "kv' = (k', v')" by (cases kv')
    have "\<exists>r. join '', '' (map (\<lambda>(k, v). dumps_str k @ '': '' @ json_dumps v) kvs) @ CHR ''}'' # rest = quote # r"
      unfolding Cons kv' by (cases kvs') (simp_all add: dumps_str_def)
    then obtain r where j: "join '', '' (map (\<lambda>(k, v). dumps_str k @ '': '' @ json_dumps v) kvs) @ CHR ''}'' # rest = quote # r"
      by blast
    have whole: "json_dumps (JObj kvs) @ rest = CHR ''{'' # quote # r"
      using j by simp
    show ?thesis
      unfolding n whole scan_once_obj_enter using obj unfolding j by simp
  qed
qed

lemma length_join: "sum_list (map length xs) \<le> length (join sep xs)"
  by (induction sep xs rule: join.induct) simp_all

lemma json_dumps_not_empty: "1 \<le> length (json_dumps v)"
  using dumps_start[of v] by auto

lemma sum_list_mono_le:
  "(\<And>x. x \<in> set xs \<Longrightarrow> f x \<le> g x) \<Longrightarrow> sum_list (map f xs) \<le> sum_list (map g xs)"
  for f g :: "'a \<Rightarrow> nat"
  by (induction xs) (auto intro: add_mono)

lemma fuel_bound: "Suc (fuel v) \<le> 2 * length (json_dumps v)"
proof (induction v)
  case (JArr vs)
  have "sum_list (map (\<lambda>v. Suc (fuel v)) vs) \<le> sum_list (map (\<lambda>v. 2 * length (json_dumps v)) vs)"
    using JArr.IH by (rule sum_list_mono_le)
  also have "\<dots> = 2 * sum_list (map length (map json_dumps vs))"
    by (simp add: sum_list_const_mult comp_def)
  also have "\<dots> \<le> 2 * length (join '', '' (map json_dumps vs))"
    using length_join[of "map json_dumps vs" "'', ''"] by simp
  finally show ?case by simp
next
  case (JObj kvs)
  let ?member = "\<lambda>(k, v). dumps_str k @ '': '' @ json_dumps v"
  have "sum_list (map (\<lambda>(k, v). Suc (fuel v)) kvs) \<le> sum_list (map (\<lambda>kv. 2 * length (?member kv)) kvs)"
  proof (rule sum_list_mono_le)
    fix kv assume kv: "kv \<in> set kvs"
    obtain k v where e: "kv = (k, v)" by (cases kv)
    have "v \<in> Basic_BNFs.snds kv" by (simp add: e)
    with kv have "Suc (fuel v) \<le> 2 * length (json_dumps v)" by (rule JObj.IH)
    then show "(case kv of (k, v) \<Rightarrow> Suc (fuel v)) \<le> 2 * length (?member kv)"
      by (simp add: e)
  qed
  also have "\<dots> = 2 * sum_list (map length (map ?member kvs))"
    by (simp add: sum_list_const_mult comp_def)
  also have "\<dots> \<le> 2 * length (join '', '' (map ?member kvs))"
    using length_join[of "map ?member kvs" "'', ''"] by simp
  finally show ?case by simp
next
  case (JInt i)
  show ?case using json_dumps_not_empty[of "JInt i"] by simp
qed (simp_all add: dumps_str_def)

lemma json_loads_dumps: "wf_json v \<Longrightarrow> json_loads (json_dumps v) = Inr v"
proof -
  assume w: "wf_json v"
  have f: "fuel v \<le> 2 * length (json_dumps v) + 2"
    using fuel_bound[of v] by simp
  have ok: "ok_rest []" by (simp add: ok_rest_def)
  have s: "skip_ws (json_dumps v) = json_dumps v"
    using skip_ws_dumps[of v "[]"] by simp
  have "scan_once (2 * length (json_dumps v) + 2) (json_dumps v @ []) = Inr (v, [])"
    using w f ok by (rule scan_once_dumps)
  then have "scan_once (2 * length (json_dumps v) + 2) (json_dumps v) = Inr (v, [])"
    by simp
  then show ?thesis
    unfolding json_loads_def s by simp
qed



section \<open>The wire format\<close>

lemma printable_digit: "is_digit c \<Longrightarrow> printable c"
  by (simp add: is_digit_def printable_def)

lemma dec_printable: "list_all printable (dec n)"
  using dec_digits[of n] by (auto simp: list_all_iff intro: printable_digit)

lemma dumps_int_printable: "list_all printable (dumps_int i)"
  using dec_printable by (simp add: dumps_int_def printable_def)

lemma hex_digit_printable: "d < 16 \<Longrightarrow> printable (hex_digit d)"
  by (auto simp: hex_digit_def printable_def)

lemma escape_char_printable: "list_all printable (escape_char c)"
proof -
  have a: "(of_char c :: nat) div 16 < 16"
    by (rule less_mult_imp_div_less) (use of_char_lt[of c] in simp)
  have b: "(of_char c :: nat) mod 16 < 16" by simp
  have h: "printable (hex_digit ((of_char c :: nat) div 16))" "printable (hex_digit ((of_char c :: nat) mod 16))"
    using hex_digit_printable[OF a] hex_digit_printable[OF b] by blast+
  have q: "printable quote" "printable backslash" "printable CHR ''n''" "printable CHR ''r''"
    "printable CHR ''t''" "printable CHR ''b''" "printable CHR ''f''" "printable CHR ''u''" "printable CHR ''0''"
    by (simp_all add: printable_def quote_def backslash_def)
  show ?thesis
    unfolding escape_char_def using h q by (simp add: printable_def[of c])
qed

lemma dumps_str_printable: "list_all printable (dumps_str s)"
proof -
  have "list_all printable (concat (map escape_char s))"
    using escape_char_printable by (induction s) simp_all
  moreover have "printable quote" by (simp add: printable_def quote_def)
  ultimately show ?thesis
    by (simp add: dumps_str_def)
qed

lemma join_printable:
  "list_all printable sep \<Longrightarrow> (\<And>x. x \<in> set xs \<Longrightarrow> list_all printable x) \<Longrightarrow>
   list_all printable (join sep xs)"
  by (induction sep xs rule: join.induct) simp_all

lemma json_dumps_printable: "list_all printable (json_dumps v)"
proof (induction v)
  case JNull
  show ?case by (simp add: printable_def)
next
  case (JBool b)
  show ?case by (simp add: printable_def)
next
  case (JInt i)
  show ?case by (simp add: dumps_int_printable)
next
  case (JStr s)
  show ?case by (simp add: dumps_str_printable)
next
  case (JArr vs)
  have sep: "list_all printable '', ''" by (simp add: printable_def)
  have "list_all printable (join '', '' (map json_dumps vs))"
    using sep by (rule join_printable) (use JArr.IH in auto)
  moreover have "printable CHR ''[''" "printable CHR '']''" by (simp_all add: printable_def)
  ultimately show ?case by simp
next
  case (JObj kvs)
  have sep: "list_all printable '', ''" by (simp add: printable_def)
  have "list_all printable (join '', '' (map (\<lambda>(k, v). dumps_str k @ '': '' @ json_dumps v) kvs))"
    using sep
  proof (rule join_printable)
    fix x assume "x \<in> set (map (\<lambda>(k, v). dumps_str k @ '': '' @ json_dumps v) kvs)"
    then obtain k v where kv: "(k, v) \<in> set kvs" and x: "x = dumps_str k @ '': '' @ json_dumps v"
      by auto
    have "v \<in> Basic_BNFs.snds (k, v)" by simp
    with kv have "list_all printable (json_dumps v)" by (rule JObj.IH)
    moreover have "printable CHR '':''" "printable CHR '' ''" by (simp_all add: printable_def)
    ultimately show "list_all printable x"
      unfolding x using dumps_str_printable[of k] by simp
  qed
  moreover have "printable CHR ''{''" "printable CHR ''}''" by (simp_all add: printable_def)
  ultimately show ?case by simp
qed

text \<open>
  C7, as the code has it. The wire text of a message is an object with the three fields
  \<open>uuid\<close>, \<open>code\<close> and \<open>data\<close>, in this order, each holding the text of the attribute whatever
  its type; the text is printable ASCII (so its UTF-8 encoding is the text itself); and
  it reads back as the object with exactly these three fields.
\<close>

theorem wire_object_has_uuid_code_data:
  \<open>to_json m =
     ''{"uuid": '' @ json_dumps (uuid m) @ '', "code": '' @ json_dumps (code m) @
     '', "data": '' @ json_dumps (data m) @ ''}'' \<and>
   list_all printable (to_json m) \<and>
   (wf_json (uuid m) \<and> wf_json (code m) \<and> wf_json (data m) \<longrightarrow>
      json_loads (to_json m) = Inr (JObj [(''uuid'', uuid m), (''code'', code m), (''data'', data m)]))\<close>
proof -
  have a: \<open>to_json m =
     ''{"uuid": '' @ json_dumps (uuid m) @ '', "code": '' @ json_dumps (code m) @
     '', "data": '' @ json_dumps (data m) @ ''}''\<close>
    by (simp add: to_json_def to_dict_def dumps_str_def escape_char_def quote_def backslash_def)
  have b: "list_all printable (to_json m)"
    unfolding to_json_def by (rule json_dumps_printable)
  have c: "json_loads (to_json m) = Inr (JObj [(''uuid'', uuid m), (''code'', code m), (''data'', data m)])"
    if "wf_json (uuid m) \<and> wf_json (code m) \<and> wf_json (data m)"
  proof -
    have "wf_json (to_dict m)" using that by (simp add: to_dict_def)
    then have "json_loads (json_dumps (to_dict m)) = Inr (to_dict m)" by (rule json_loads_dumps)
    then show ?thesis by (simp add: to_json_def to_dict_def)
  qed
  show ?thesis using a b c by blast
qed

theorem wire_object_has_uuid_code_data_witness:
  \<open>to_json example_ping = ''{"uuid": 1, "code": "PING", "data": {}}'' \<and>
   json_loads (to_json example_ping) =
     Inr (JObj [(''uuid'', JInt 1), (''code'', JStr ''PING''), (''data'', JObj [])])\<close>
proof -
  note t = wire_object_has_uuid_code_data[of example_ping]
  have w: "wf_json (uuid example_ping) \<and> wf_json (code example_ping) \<and> wf_json (data example_ping)"
    by (simp add: example_ping_def)
  have 1: \<open>to_json example_ping = ''{"uuid": 1, "code": "PING", "data": {}}''\<close>
    by code_simp
  from t w have "json_loads (to_json example_ping) =
      Inr (JObj [(''uuid'', uuid example_ping), (''code'', code example_ping), (''data'', data example_ping)])"
    by blast
  then have 2: "json_loads (to_json example_ping) =
      Inr (JObj [(''uuid'', JInt 1), (''code'', JStr ''PING''), (''data'', JObj [])])"
    by (simp add: example_ping_def)
  from 1 2 show ?thesis by blast
qed

text \<open>
  C7 as stated fails: the wire text of the message with \<open>uuid\<close> 1, \<open>code\<close> \<open>"PING"\<close> and an empty
  payload has no field \<open>id\<close>.
\<close>

theorem wire_object_has_no_id_field:
  \<open>to_json example_ping = ''{"uuid": 1, "code": "PING", "data": {}}'' \<and>
   \<not> wire_matches_spec (to_json example_ping)\<close>
  by code_simp

end
